theory Spec2Isabelle
  imports Main
begin

section \<open>Shared vocabulary\<close>

text \<open>
  The repository is a pipeline of notebooks.  Two of them carry the logic verified here:
  \<^item> \<^verbatim>\<open>03_extract_story_keywords.ipynb\<close>: the resumable keyword-extraction driver, whose
    checkpoint is the output CSV (the ledger);
  \<^item> \<^verbatim>\<open>04_embed_story_keywords.ipynb\<close>: the keyword vocabulary and the batch loop that fills
    the embedding store.

  Python exceptions are values of \<open>error\<close>.  A step that can raise returns an \<open>outcome\<close>,
  which keeps the state reached when the exception left the step: the files on disk and
  the calls already made to an external service are not undone by an exception.
\<close>

type_synonym keyword = string

datatype error =
    TypeError
  | JSONDecodeError
  | ValueError
  | ServiceError string

datatype 's outcome = Raised error 's | Completed 's

fun state_of :: "'s outcome \<Rightarrow> 's" where
  "state_of (Raised e s) = s"
| "state_of (Completed s) = s"

section \<open>Notebook 04: the embedding store\<close>

text \<open>
  The notebook imports the class \<^verbatim>\<open>EmbeddingStore\<close> from the module \<^verbatim>\<open>embeddingio\<close>, which is
  not among the source files.  Its two operations are modelled from the contract the spec
  gives (4.2), on the table as a map with one vector per keyword.  The vectors the loop
  hands to it are float32 arrays, which always encode, and the store is open for the
  whole loop.
\<close>

type_synonym 'v embedding_store = "keyword \<rightharpoonup> 'v"

text \<open>
  Modelled from the spec: \<^verbatim>\<open>EmbeddingStore.get_embeddings\<close> (module \<^verbatim>\<open>embeddingio\<close>, missing from
  the sources).  It returns the requested keywords that are present, omits the absent
  ones without error, and has one entry per distinct keyword.
\<close>

definition get_embeddings :: "'v embedding_store \<Rightarrow> keyword list \<Rightarrow> (keyword \<rightharpoonup> 'v)" where
  "get_embeddings st keywords = st |` set keywords"

text \<open>
  Modelled from the spec: \<^verbatim>\<open>EmbeddingStore.add_embeddings\<close> (module \<^verbatim>\<open>embeddingio\<close>, missing from
  the sources).  It upserts all the given pairs in one transaction; a keyword already
  present gets the new vector, and of two pairs for one keyword the last wins.
\<close>

definition add_embeddings :: "'v embedding_store \<Rightarrow> (keyword \<times> 'v) list \<Rightarrow> 'v embedding_store" where
  "add_embeddings st pairs = fold (\<lambda>(k, v) m. m(k \<mapsto> v)) pairs st"

section \<open>Notebook 04: the batch loop\<close>

text \<open>
  \<^verbatim>\<open>compute_embeddings\<close> is the external embedding service.  It is a parameter of the model:
  a function of the service's own state \<open>'w\<close> and the keyword list, which either raises or
  returns a list of raw vectors \<open>'r\<close>, and moves the service to a new state.  Nothing is
  assumed about it: it may fail now and succeed later, and may return fewer vectors than
  keywords.

  \<^verbatim>\<open>np.asarray(vector, dtype=np.float32)\<close> is the parameter \<open>asarray_float32\<close>, from raw
  vectors to float32 arrays \<open>'v\<close>.

  The state of a run: the store (the database file, which outlives the run), the
  dictionary \<^verbatim>\<open>final_keyword_embeddings\<close>, the state of the service, and \<open>calls\<close>, the
  argument lists \<^verbatim>\<open>compute_embeddings\<close> was invoked with so far, in order (an observation
  of the run, not a variable of the notebook).
\<close>

type_synonym ('w, 'r) compute = "'w \<Rightarrow> keyword list \<Rightarrow> (error + 'r list) \<times> 'w"

record ('w, 'v) resolver =
  store :: "'v embedding_store"
  final_keyword_embeddings :: "keyword \<rightharpoonup> 'v"
  service :: 'w
  calls :: "keyword list list"

definition BATCH_SIZE :: nat where
  "BATCH_SIZE = 20"

text \<open>\<^verbatim>\<open>range(0, n, step)\<close> for a positive step: \<open>0, step, 2 * step, ...\<close> below \<open>n\<close>.\<close>

definition range_step :: "nat \<Rightarrow> nat \<Rightarrow> nat list" where
  "range_step n step = map (\<lambda>j. j * step) [0 ..< (n + step - 1) div step]"

text \<open>The slices \<^verbatim>\<open>keywords_to_process[i:i + BATCH_SIZE]\<close> the loop visits, in order.\<close>

definition batches :: "nat \<Rightarrow> keyword list \<Rightarrow> keyword list list" where
  "batches batch_size keywords_to_process =
     map (\<lambda>i. take batch_size (drop i keywords_to_process))
       (range_step (length keywords_to_process) batch_size)"

text \<open>The body of the loop, for one batch.\<close>

definition process_batch ::
  "('w, 'r) compute \<Rightarrow> ('r \<Rightarrow> 'v) \<Rightarrow> keyword list \<Rightarrow> ('w, 'v) resolver
     \<Rightarrow> ('w, 'v) resolver outcome" where
  "process_batch compute_embeddings asarray_float32 batch_keywords s =
     (let existing_embeddings_in_batch = get_embeddings (store s) batch_keywords;
          fin = final_keyword_embeddings s ++ existing_embeddings_in_batch;
          new_keywords_to_compute =
            filter (\<lambda>k. existing_embeddings_in_batch k = None) batch_keywords
      in if new_keywords_to_compute \<noteq> [] then
           (case compute_embeddings (service s) new_keywords_to_compute of
              (Inl e, w) \<Rightarrow>
                Raised e
                  (s\<lparr>final_keyword_embeddings := fin, service := w,
                     calls := calls s @ [new_keywords_to_compute]\<rparr>)
            | (Inr new_computed_embedding_vectors, w) \<Rightarrow>
                (let embeddings_to_add_to_store_list =
                       zip new_keywords_to_compute
                         (map asarray_float32 new_computed_embedding_vectors)
                 in Completed
                      (s\<lparr>store :=
                           (if embeddings_to_add_to_store_list \<noteq> []
                            then add_embeddings (store s) embeddings_to_add_to_store_list
                            else store s),
                         final_keyword_embeddings :=
                           fold (\<lambda>(k, v) m. m(k \<mapsto> v)) embeddings_to_add_to_store_list fin,
                         service := w,
                         calls := calls s @ [new_keywords_to_compute]\<rparr>)))
         else Completed (s\<lparr>final_keyword_embeddings := fin\<rparr>))"

text \<open>The \<^verbatim>\<open>for\<close> loop: an exception raised in one batch ends the loop.\<close>

fun run_batches ::
  "('w, 'r) compute \<Rightarrow> ('r \<Rightarrow> 'v) \<Rightarrow> keyword list list \<Rightarrow> ('w, 'v) resolver
     \<Rightarrow> ('w, 'v) resolver outcome" where
  "run_batches c f [] s = Completed s"
| "run_batches c f (b # bs) s =
     (case process_batch c f b s of
        Raised e s' \<Rightarrow> Raised e s'
      | Completed s' \<Rightarrow> run_batches c f bs s')"

text \<open>
  The second code cell as a function of the keyword list, the batch size, the store found
  on disk and the state of the service.  The notebook runs it with \<open>BATCH_SIZE\<close>;
  \<^verbatim>\<open>range\<close> raises \<^verbatim>\<open>ValueError\<close> for a step of zero.
\<close>

definition start :: "'v embedding_store \<Rightarrow> 'w \<Rightarrow> ('w, 'v) resolver" where
  "start st w = \<lparr>store = st, final_keyword_embeddings = Map.empty, service = w, calls = []\<rparr>"

definition resolve ::
  "('w, 'r) compute \<Rightarrow> ('r \<Rightarrow> 'v) \<Rightarrow> nat \<Rightarrow> keyword list \<Rightarrow> 'v embedding_store \<Rightarrow> 'w
     \<Rightarrow> ('w, 'v) resolver outcome" where
  "resolve c f batch_size keywords_to_process st w =
     (if batch_size = 0 then Raised ValueError (start st w)
      else run_batches c f (batches batch_size keywords_to_process) (start st w))"

section \<open>Notebook 04: the keyword vocabulary\<close>

text \<open>
  The first code cell reads \<^verbatim>\<open>data/stories_deduplicated_meta.csv\<close> and builds \<^verbatim>\<open>all_keywords\<close>.
  The two keyword columns hold texts, so a cell of them read by \<^verbatim>\<open>pd.read_csv\<close> is either a
  string or \<^verbatim>\<open>NaN\<close>: a field whose text is one of pandas' default missing-value markers, the
  empty field among them, is read as \<^verbatim>\<open>NaN\<close>.
\<close>

datatype cell = NaN | Text string

definition na_values :: "string list" where
  "na_values =
     [[], ''#N/A'', ''#N/A N/A'', ''#NA'', ''-1.#IND'', ''-1.#QNAN'', ''-NaN'', ''-nan'',
      ''1.#IND'', ''1.#QNAN'', ''<NA>'', ''N/A'', ''NA'', ''NULL'', ''NaN'', ''None'',
      ''n/a'', ''nan'', ''null'']"

definition read_csv_field :: "string \<Rightarrow> cell" where
  "read_csv_field field = (if field \<in> set na_values then NaN else Text field)"

record meta_row =
  llm_keywords :: cell
  dev_keywords :: cell

text \<open>
  \<^verbatim>\<open>json.loads\<close> is the standard library's decoder.  It raises \<^verbatim>\<open>TypeError\<close> for an argument that
  is not a string (the float \<^verbatim>\<open>NaN\<close>), \<^verbatim>\<open>JSONDecodeError\<close> for the empty string, and returns the
  empty list for the text \<^verbatim>\<open>[]\<close>; on every other text it is the parameter \<open>decode\<close>.  A decoded
  keyword list is a list of strings and nulls.
\<close>

type_synonym decoder = "string \<Rightarrow> error + keyword option list"

definition json_loads :: "decoder \<Rightarrow> cell \<Rightarrow> error + keyword option list" where
  "json_loads decode c =
     (case c of
        NaN \<Rightarrow> Inl TypeError
      | Text s \<Rightarrow>
          if s = [] then Inl JSONDecodeError
          else if s = ''[]'' then Inr []
          else decode s)"

text \<open>\<^verbatim>\<open>Series.apply(json.loads)\<close>: the first cell that raises ends the call.\<close>

fun apply_json_loads :: "decoder \<Rightarrow> cell list \<Rightarrow> error + keyword option list list" where
  "apply_json_loads decode [] = Inr []"
| "apply_json_loads decode (c # cs) =
     (case json_loads decode c of
        Inl e \<Rightarrow> Inl e
      | Inr v \<Rightarrow>
          (case apply_json_loads decode cs of
             Inl e \<Rightarrow> Inl e
           | Inr vs \<Rightarrow> Inr (v # vs)))"

text \<open>\<^verbatim>\<open>Series.explode\<close>: one entry per list element; an empty list becomes one \<^verbatim>\<open>NaN\<close>.\<close>

definition explode :: "keyword option list list \<Rightarrow> keyword option list" where
  "explode col = concat (map (\<lambda>l. if l = [] then [None] else l) col)"

fun dropna :: "keyword option list \<Rightarrow> keyword list" where
  "dropna [] = []"
| "dropna (None # xs) = dropna xs"
| "dropna (Some k # xs) = k # dropna xs"

text \<open>\<^verbatim>\<open>Series.unique\<close>: the distinct values in order of first appearance.\<close>

fun unique_from :: "'a list \<Rightarrow> 'a list \<Rightarrow> 'a list" where
  "unique_from seen [] = []"
| "unique_from seen (x # xs) =
     (if x \<in> set seen then unique_from seen xs else x # unique_from (x # seen) xs)"

definition unique :: "'a list \<Rightarrow> 'a list" where
  "unique xs = unique_from [] xs"

definition all_keywords :: "decoder \<Rightarrow> meta_row list \<Rightarrow> error + keyword list" where
  "all_keywords decode df =
     (case apply_json_loads decode (map llm_keywords df) of
        Inl e \<Rightarrow> Inl e
      | Inr llm \<Rightarrow>
          (case apply_json_loads decode (map dev_keywords df) of
             Inl e \<Rightarrow> Inl e
           | Inr dev \<Rightarrow> Inr (unique (dropna (explode llm @ explode dev)))))"

text \<open>The notebook: the vocabulary, then the batch loop over \<^verbatim>\<open>all_keywords.tolist()\<close>.\<close>

definition embed_story_keywords ::
  "decoder \<Rightarrow> ('w, 'r) compute \<Rightarrow> ('r \<Rightarrow> 'v) \<Rightarrow> meta_row list \<Rightarrow> 'v embedding_store \<Rightarrow> 'w
     \<Rightarrow> ('w, 'v) resolver outcome" where
  "embed_story_keywords decode c f df st w =
     (case all_keywords decode df of
        Inl e \<Rightarrow> Raised e (start st w)
      | Inr keywords_to_process \<Rightarrow> resolve c f BATCH_SIZE keywords_to_process st w)"

section \<open>Notebook 03: the resumable keyword extraction\<close>

text \<open>
  A row of \<^verbatim>\<open>data/stories_deduplicated.csv\<close>, with \<^verbatim>\<open>title\<close> and \<^verbatim>\<open>story_text\<close> as the strings
  \<^verbatim>\<open>process_single_story\<close> makes of them.  The ledger is the output CSV: \<open>None\<close> while the
  file does not exist, otherwise the rows under its header.
\<close>

record story =
  story_id :: int
  title :: string
  story_text :: string

type_synonym ledger_row = "int \<times> string \<times> string"

type_synonym ledger = "ledger_row list option"

text \<open>
  \<^verbatim>\<open>extract_keywords\<close> asks the hosted language model and decodes its answer; any step of it
  may raise.  It is a parameter: a function of the state of the model service, the title
  and the text, which raises or returns the values under the keys \<^verbatim>\<open>LLM\<close> and \<^verbatim>\<open>DEV\<close> of the
  answer: each a keyword list, or \<open>None\<close> for a null.  \<^verbatim>\<open>json.dumps\<close> is the parameter
  \<open>dumps\<close>.
\<close>

type_synonym 'w extractor =
  "'w \<Rightarrow> string \<Rightarrow> string \<Rightarrow> (error + keyword list option \<times> keyword list option) \<times> 'w"

datatype output_line =
    CreatedOutputFile
  | FoundProcessed nat
  | ProcessingStory nat nat int
  | ErrorProcessing int error
  | ProcessingComplete nat

text \<open>
  The state of the driver: the ledger file, the state of the model service, the lines
  printed, the variable \<^verbatim>\<open>processed_count\<close>, and \<open>handled\<close>: the story ids
  \<^verbatim>\<open>extract_keywords\<close> was called for so far, in order, each with whether the call returned
  (an observation of the run, not a variable of the notebook).
\<close>

record 'w driver =
  output_file :: ledger
  agent :: 'w
  printed :: "output_line list"
  processed_count :: nat
  handled :: "(int \<times> bool) list"

text \<open>\<^verbatim>\<open>initialize_output_file\<close>: the file it leaves, and what it prints.\<close>

definition initialize_output_file :: "ledger \<Rightarrow> ledger" where
  "initialize_output_file file = (case file of None \<Rightarrow> Some [] | Some rows \<Rightarrow> Some rows)"

definition initialize_output_file_prints :: "ledger \<Rightarrow> output_line list" where
  "initialize_output_file_prints file =
     (case file of None \<Rightarrow> [CreatedOutputFile] | Some rows \<Rightarrow> [])"

text \<open>\<^verbatim>\<open>get_processed_story_ids\<close>: the set it returns, and what it prints.\<close>

definition get_processed_story_ids :: "ledger \<Rightarrow> int set" where
  "get_processed_story_ids file =
     (case file of Some rows \<Rightarrow> set (map fst rows) | None \<Rightarrow> {})"

definition get_processed_story_ids_prints :: "ledger \<Rightarrow> output_line list" where
  "get_processed_story_ids_prints file =
     (case file of
        Some rows \<Rightarrow> [FoundProcessed (card (set (map fst rows)))]
      | None \<Rightarrow> [])"

text \<open>
  \<^verbatim>\<open>save_story_keywords\<close> opens the file for appending and writes one row after the rows
  it holds (\<open>rows_of\<close>; none when the file is new).  A keyword value that is false for
  Python, the empty list or \<open>None\<close>, is written as the text \<^verbatim>\<open>[]\<close>, any other as \<^verbatim>\<open>json.dumps\<close>
  gives it.
\<close>

definition rows_of :: "ledger \<Rightarrow> ledger_row list" where
  "rows_of file = (case file of None \<Rightarrow> [] | Some rows \<Rightarrow> rows)"

fun truthy :: "keyword list option \<Rightarrow> bool" where
  "truthy None = False"
| "truthy (Some kws) = (kws \<noteq> [])"

definition keywords_str :: "(keyword list \<Rightarrow> string) \<Rightarrow> keyword list option \<Rightarrow> string" where
  "keywords_str dumps kws = (if truthy kws then dumps (the kws) else ''[]'')"

definition save_story_keywords ::
  "(keyword list \<Rightarrow> string) \<Rightarrow> ledger \<Rightarrow> int \<Rightarrow> keyword list option \<times> keyword list option
     \<Rightarrow> ledger" where
  "save_story_keywords dumps file sid keywords =
     (let llm_keywords_str = keywords_str dumps (fst keywords);
          dev_keywords_str = keywords_str dumps (snd keywords)
      in Some (rows_of file @ [(sid, llm_keywords_str, dev_keywords_str)]))"

definition process_single_story ::
  "'w extractor \<Rightarrow> (keyword list \<Rightarrow> string) \<Rightarrow> story \<Rightarrow> 'w driver \<Rightarrow> bool \<times> 'w driver" where
  "process_single_story extract_keywords dumps row s =
     (case extract_keywords (agent s) (title row) (story_text row) of
        (Inr keywords, w) \<Rightarrow>
          (True,
           s\<lparr>output_file := save_story_keywords dumps (output_file s) (story_id row) keywords,
             agent := w, handled := handled s @ [(story_id row, True)]\<rparr>)
      | (Inl e, w) \<Rightarrow>
          (False,
           s\<lparr>agent := w, printed := printed s @ [ErrorProcessing (story_id row) e],
             handled := handled s @ [(story_id row, False)]\<rparr>))"

text \<open>The \<^verbatim>\<open>for idx, row in df.iterrows()\<close> loop of the last cell.\<close>

fun story_loop ::
  "'w extractor \<Rightarrow> (keyword list \<Rightarrow> string) \<Rightarrow> int set \<Rightarrow> nat \<Rightarrow> story list \<Rightarrow> 'w driver
     \<Rightarrow> 'w driver" where
  "story_loop ex dumps processed_story_ids total_stories [] s = s"
| "story_loop ex dumps processed_story_ids total_stories (row # rows) s =
     (if story_id row \<in> processed_story_ids
      then story_loop ex dumps processed_story_ids total_stories rows s
      else
        (let s1 = s\<lparr>printed := printed s
                      @ [ProcessingStory (processed_count s + 1) total_stories (story_id row)]\<rparr>;
             r = process_single_story ex dumps row s1;
             s2 = (if fst r then (snd r)\<lparr>processed_count := processed_count (snd r) + 1\<rparr>
                   else snd r)
         in story_loop ex dumps processed_story_ids total_stories rows s2))"

text \<open>
  The last cell, started on the ledger found on disk: the completed set is read once,
  before the loop.
\<close>

definition run_driver ::
  "'w extractor \<Rightarrow> (keyword list \<Rightarrow> string) \<Rightarrow> story list \<Rightarrow> ledger \<Rightarrow> 'w \<Rightarrow> 'w driver" where
  "run_driver ex dumps df file w =
     (let file1 = initialize_output_file file;
          processed_story_ids = get_processed_story_ids file1;
          s1 = \<lparr>output_file = file1, agent = w,
                printed = initialize_output_file_prints file @ get_processed_story_ids_prints file1,
                processed_count = card processed_story_ids, handled = []\<rparr>;
          s2 = story_loop ex dumps processed_story_ids (length df) df s1
      in s2\<lparr>printed := printed s2 @ [ProcessingComplete (processed_count s2)]\<rparr>)"

text \<open>
  Notebook 04 reads the ledger back with \<^verbatim>\<open>pd.read_csv\<close>: the two keyword fields of a row
  become the cells of \<^verbatim>\<open>llm_keywords\<close> and \<^verbatim>\<open>dev_keywords\<close>.
\<close>

definition read_meta_row :: "ledger_row \<Rightarrow> meta_row" where
  "read_meta_row r =
     \<lparr>llm_keywords = read_csv_field (fst (snd r)), dev_keywords = read_csv_field (snd (snd r))\<rparr>"

section \<open>Facts about the store and one batch\<close>

lemma fold_upd_map_of: "fold (\<lambda>(k, v) m. m(k \<mapsto> v)) ps m = m ++ map_of (rev ps)"
proof (induction ps arbitrary: m)
  case Nil
  then show ?case by simp
next
  case (Cons p ps)
  obtain k v where p: "p = (k, v)" by (cases p)
  have "fold (\<lambda>(k, v) m. m(k \<mapsto> v)) (p # ps) m = fold (\<lambda>(k, v) m. m(k \<mapsto> v)) ps (m(k \<mapsto> v))"
    by (simp add: p)
  also have "\<dots> = m(k \<mapsto> v) ++ map_of (rev ps)"
    by (rule Cons)
  also have "\<dots> = m ++ map_of (rev (p # ps))"
    unfolding p by (rule ext) (simp add: map_add_def split: option.splits)
  finally show ?case .
qed

lemma add_embeddings_eq: "add_embeddings st ps = st ++ map_of (rev ps)"
  by (simp add: add_embeddings_def fold_upd_map_of)

lemma filter_existing:
  "filter (\<lambda>k. get_embeddings st b k = None) b = filter (\<lambda>k. st k = None) b"
  unfolding get_embeddings_def by (rule filter_cong) auto

lemma count_list_filter_if:
  "count_list (filter P xs) k = (if P k then count_list xs k else 0)"
  by (induction xs) auto

lemma process_batch_calls:
  "calls (state_of (process_batch c f b s)) =
     calls s @ (if filter (\<lambda>k. store s k = None) b = [] then []
                else [filter (\<lambda>k. store s k = None) b])"
  by (simp add: process_batch_def Let_def filter_existing split: prod.splits sum.splits)

lemma process_batch_dom:
  "dom (store s) \<subseteq> dom (store (state_of (process_batch c f b s)))"
  by (auto simp add: process_batch_def Let_def filter_existing add_embeddings_eq
      split: prod.splits sum.splits)

section \<open>Facts about the batch loop\<close>

lemma run_batches_append:
  "run_batches c f (xs @ ys) s =
     (case run_batches c f xs s of
        Raised e s' \<Rightarrow> Raised e s'
      | Completed s' \<Rightarrow> run_batches c f ys s')"
  by (induction xs arbitrary: s) (auto split: outcome.splits)

lemma run_batches_dom:
  "dom (store s) \<subseteq> dom (store (state_of (run_batches c f bs s)))"
proof (induction bs arbitrary: s)
  case Nil
  then show ?case by simp
next
  case (Cons b bs)
  show ?case
  proof (cases "process_batch c f b s")
    case (Raised e s')
    then show ?thesis using process_batch_dom [of s c f b] by simp
  next
    case (Completed s')
    then show ?thesis using process_batch_dom [of s c f b] Cons.IH [of s'] by auto
  qed
qed

text \<open>
  Every call made while a list of batches runs is a sublist of one of the batches and
  holds no keyword that had a vector in the store when the list was started.
\<close>

lemma run_batches_calls:
  "\<exists>new. calls (state_of (run_batches c f bs s)) = calls s @ new \<and>
     (\<forall>a \<in> set new. (\<exists>b \<in> set bs. set a \<subseteq> set b) \<and> set a \<inter> dom (store s) = {})"
proof (induction bs arbitrary: s)
  case Nil
  then show ?case by simp
next
  case (Cons b bs)
  let ?m = "filter (\<lambda>k. store s k = None) b"
  have m: "set ?m \<subseteq> set b" "set ?m \<inter> dom (store s) = {}"
    by auto
  have c1: "calls (state_of (process_batch c f b s)) = calls s @ (if ?m = [] then [] else [?m])"
    by (rule process_batch_calls)
  show ?case
  proof (cases "process_batch c f b s")
    case (Raised e s')
    with c1 m show ?thesis by (auto intro!: exI [of _ "if ?m = [] then [] else [?m]"])
  next
    case (Completed s')
    from Cons.IH [of s'] obtain new where
      new: "calls (state_of (run_batches c f bs s')) = calls s' @ new"
        "\<forall>a \<in> set new. (\<exists>b \<in> set bs. set a \<subseteq> set b) \<and> set a \<inter> dom (store s') = {}"
      by blast
    have d: "dom (store s) \<subseteq> dom (store s')"
      using process_batch_dom [of s c f b] Completed by simp
    have cs': "calls s' = calls s @ (if ?m = [] then [] else [?m])"
      using c1 Completed by simp
    show ?thesis
      apply (rule exI [of _ "(if ?m = [] then [] else [?m]) @ new"])
      using Completed new cs' m d by (auto split: if_splits) blast+
  qed
qed

lemma batches_example: "batches 2 [''ai'', ''rust'', ''ai''] = [[''ai'', ''rust''], [''ai'']]"
  by (simp add: batches_def range_step_def upt_rec)

lemma process_batch_Raised:
  assumes "process_batch c f b s = Raised e s'"
  shows "store s' = store s \<and>
         calls s' = calls s @ [filter (\<lambda>k. store s k = None) b]"
  using assms
  by (auto simp add: process_batch_def Let_def filter_existing
      split: prod.splits sum.splits if_splits)

lemma get_embeddings_le: "get_embeddings st b \<subseteq>\<^sub>m st"
  by (simp add: get_embeddings_def map_le_def)

lemma map_add_both_le: "m \<subseteq>\<^sub>m st \<Longrightarrow> m ++ g \<subseteq>\<^sub>m st ++ g"
  by (auto simp: map_le_def map_add_def dom_def split: option.splits)

lemma map_add_le_same: "m \<subseteq>\<^sub>m st \<Longrightarrow> g \<subseteq>\<^sub>m st \<Longrightarrow> m ++ g \<subseteq>\<^sub>m st"
  by (auto simp: map_le_def map_add_def dom_def split: option.splits)

lemma process_batch_final_le:
  assumes "final_keyword_embeddings s \<subseteq>\<^sub>m store s"
  shows "final_keyword_embeddings (state_of (process_batch c f b s))
           \<subseteq>\<^sub>m store (state_of (process_batch c f b s))"
proof -
  have fin: "final_keyword_embeddings s ++ get_embeddings (store s) b \<subseteq>\<^sub>m store s"
    using assms by (simp add: map_add_le_same get_embeddings_le)
  show ?thesis
    using fin
    by (auto simp add: process_batch_def Let_def add_embeddings_eq fold_upd_map_of
        map_add_both_le split: prod.splits sum.splits)
qed

lemma run_batches_final_le:
  "final_keyword_embeddings s \<subseteq>\<^sub>m store s \<Longrightarrow>
     final_keyword_embeddings (state_of (run_batches c f bs s))
       \<subseteq>\<^sub>m store (state_of (run_batches c f bs s))"
proof (induction bs arbitrary: s)
  case Nil
  then show ?case by simp
next
  case (Cons b bs)
  from process_batch_final_le [OF Cons.prems, of c f b] Cons.IH
  show ?case by (cases "process_batch c f b s") auto
qed

lemma process_batch_covers:
  assumes contract: "\<forall>w a vs w'. c w a = (Inr vs, w') \<longrightarrow> length vs = length a"
    and ok: "process_batch c f b s = Completed s'"
  shows "set b \<subseteq> dom (store s')"
proof
  fix k assume kb: "k \<in> set b"
  let ?new = "filter (\<lambda>k. store s k = None) b"
  show "k \<in> dom (store s')"
  proof (cases "store s k")
    case (Some v)
    then show ?thesis
      using process_batch_dom [of s c f b] ok by auto
  next
    case None
    with kb have kn: "k \<in> set ?new" by simp
    then have ne: "?new \<noteq> []" by (metis empty_iff empty_set)
    obtain r w' where r: "c (service s) ?new = (r, w')" by (cases "c (service s) ?new")
    with ok ne obtain vs where vs: "r = Inr vs"
      by (cases r) (auto simp: process_batch_def Let_def filter_existing)
    with r contract have len: "length vs = length ?new" by blast
    then have "k \<in> fst ` set (zip ?new (map f vs))"
      using kn by (metis length_map map_fst_zip set_map)
    then have "k \<in> dom (map_of (rev (zip ?new (map f vs))))"
      by (simp add: dom_map_of_conv_image_fst)
    moreover have "zip ?new (map f vs) \<noteq> []"
      using ne len by (cases ?new; cases vs) auto
    ultimately show ?thesis
      using ok r vs ne
      by (auto simp: process_batch_def Let_def filter_existing add_embeddings_eq)
  qed
qed

lemma run_batches_covers:
  assumes contract: "\<forall>w a vs w'. c w a = (Inr vs, w') \<longrightarrow> length vs = length a"
  shows "run_batches c f bs s = Completed s' \<Longrightarrow> b \<in> set bs \<Longrightarrow> set b \<subseteq> dom (store s')"
proof (induction bs arbitrary: s)
  case Nil
  then show ?case by simp
next
  case (Cons x bs)
  from Cons.prems(1) obtain s1 where
    s1: "process_batch c f x s = Completed s1" and rest: "run_batches c f bs s1 = Completed s'"
    by (auto split: outcome.splits)
  show ?case
  proof (cases "b = x")
    case True
    have "set x \<subseteq> dom (store s1)" by (rule process_batch_covers [OF contract s1])
    moreover have "dom (store s1) \<subseteq> dom (store s')"
      using run_batches_dom [of s1 c f bs] rest by simp
    ultimately show ?thesis using True by blast
  next
    case False
    with Cons.prems(2) have "b \<in> set bs" by simp
    with Cons.IH rest show ?thesis by blast
  qed
qed

lemma process_batch_completes:
  assumes up: "\<forall>w a. \<exists>vs w'. c w a = (Inr vs, w')"
  shows "\<exists>s'. process_batch c f b s = Completed s'"
proof -
  from up obtain vs w' where "c (service s) (filter (\<lambda>k. store s k = None) b) = (Inr vs, w')"
    by blast
  then show ?thesis
    by (simp add: process_batch_def Let_def filter_existing)
qed

lemma run_batches_completes:
  assumes up: "\<forall>w a. \<exists>vs w'. c w a = (Inr vs, w')"
  shows "\<exists>s'. run_batches c f bs s = Completed s'"
proof (induction bs arbitrary: s)
  case Nil
  then show ?case by simp
next
  case (Cons b bs)
  from process_batch_completes [OF up, of f b s] obtain s1 where
    "process_batch c f b s = Completed s1" by blast
  with Cons.IH [of s1] show ?case by simp
qed

lemma batches_zero: "batches 0 ks = []"
  by (simp add: batches_def range_step_def)

lemma map_of_rev_last:
  "i < length ps \<Longrightarrow>
     \<exists>j. i \<le> j \<and> j < length ps \<and> fst (ps ! j) = fst (ps ! i) \<and>
         map_of (rev ps) (fst (ps ! i)) = Some (snd (ps ! j))"
proof (induction ps arbitrary: i rule: rev_induct)
  case Nil
  then show ?case by simp
next
  case (snoc p ps)
  show ?case
  proof (cases "fst ((ps @ [p]) ! i) = fst p")
    case True
    then show ?thesis
      using snoc.prems by (intro exI [of _ "length ps"]) (cases p, auto)
  next
    case False
    then have i: "i < length ps"
      using snoc.prems by (cases "i = length ps") auto
    from snoc.IH [OF i] obtain j where
      "i \<le> j" "j < length ps" "fst (ps ! j) = fst (ps ! i)"
      "map_of (rev ps) (fst (ps ! i)) = Some (snd (ps ! j))"
      by blast
    then show ?thesis
      using False i by (intro exI [of _ j]) (cases p, auto simp: nth_append)
  qed
qed

section \<open>Facts about the vocabulary\<close>

lemma unique_from_props:
  "distinct (unique_from seen xs) \<and> set (unique_from seen xs) = set xs - set seen"
  by (induction xs arbitrary: seen) auto

lemma distinct_unique: "distinct (unique xs)"
  by (simp add: unique_def unique_from_props)

lemma set_unique: "set (unique xs) = set xs"
  by (simp add: unique_def unique_from_props)

lemma set_dropna: "set (dropna xs) = {k. Some k \<in> set xs}"
  by (induction xs rule: dropna.induct) auto

lemma Some_in_explode: "Some k \<in> set (explode col) \<longleftrightarrow> (\<exists>l \<in> set col. Some k \<in> set l)"
  by (auto simp: explode_def split: if_splits)

lemma in_batches: "b \<in> set (batches B ks) \<Longrightarrow> \<exists>i. b = take B (drop i ks)"
  by (auto simp: batches_def)

lemma distinct_batch: "distinct ks \<Longrightarrow> b \<in> set (batches B ks) \<Longrightarrow> distinct b"
  by (auto dest!: in_batches)

section \<open>Facts about the driver\<close>

lemma process_single_story_handled:
  "handled (snd (process_single_story ex d row s)) =
     handled s @ [(story_id row, fst (process_single_story ex d row s))]"
  by (auto simp: process_single_story_def split: prod.splits sum.splits)

lemma process_single_story_file:
  "\<exists>new. rows_of (output_file (snd (process_single_story ex d row s))) = rows_of (output_file s) @ new \<and>
         map fst new = (if fst (process_single_story ex d row s) then [story_id row] else []) \<and>
         (output_file s \<noteq> None \<longrightarrow> output_file (snd (process_single_story ex d row s)) \<noteq> None)"
  by (auto simp: process_single_story_def save_story_keywords_def rows_of_def Let_def
      split: prod.splits sum.splits option.splits)

lemma story_loop_handled:
  "map fst (handled (story_loop ex d P tot rows s)) =
     map fst (handled s) @ map story_id (filter (\<lambda>r. story_id r \<notin> P) rows)"
proof (induction rows arbitrary: s)
  case Nil
  then show ?case by simp
next
  case (Cons row rows)
  show ?case
  proof (cases "story_id row \<in> P")
    case True
    then show ?thesis using Cons.IH by simp
  next
    case False
    then show ?thesis
      by (simp add: Let_def Cons.IH process_single_story_handled)
  qed
qed

lemma story_loop_file:
  "\<exists>new. rows_of (output_file (story_loop ex d P tot rows s)) = rows_of (output_file s) @ new \<and>
         map fst new = map fst (filter snd (drop (length (handled s)) (handled (story_loop ex d P tot rows s)))) \<and>
         take (length (handled s)) (handled (story_loop ex d P tot rows s)) = handled s \<and>
         (output_file s \<noteq> None \<longrightarrow> output_file (story_loop ex d P tot rows s) \<noteq> None)"
proof (induction rows arbitrary: s)
  case Nil
  then show ?case by simp
next
  case (Cons row rows)
  show ?case
  proof (cases "story_id row \<in> P")
    case True
    then show ?thesis using Cons.IH [of s] by simp
  next
    case False
    let ?s1 = "s\<lparr>printed := printed s
                   @ [ProcessingStory (processed_count s + 1) tot (story_id row)]\<rparr>"
    let ?r = "process_single_story ex d row ?s1"
    let ?s2 = "if fst ?r then (snd ?r)\<lparr>processed_count := processed_count (snd ?r) + 1\<rparr> else snd ?r"
    have loop: "story_loop ex d P tot (row # rows) s = story_loop ex d P tot rows ?s2"
      using False by (simp add: Let_def)
    from process_single_story_file [of ex d row ?s1] obtain n1 where
      n1: "rows_of (output_file (snd ?r)) = rows_of (output_file s) @ n1"
        "map fst n1 = (if fst ?r then [story_id row] else [])"
        "output_file s \<noteq> None \<longrightarrow> output_file (snd ?r) \<noteq> None"
      by auto
    have h2: "handled ?s2 = handled s @ [(story_id row, fst ?r)]"
      using process_single_story_handled [of ex d row ?s1] by simp
    have f2: "output_file ?s2 = output_file (snd ?r)" by simp
    from Cons.IH [of ?s2] obtain n2 where
      n2: "rows_of (output_file (story_loop ex d P tot rows ?s2)) = rows_of (output_file ?s2) @ n2"
        "map fst n2 = map fst (filter snd (drop (length (handled ?s2))
                        (handled (story_loop ex d P tot rows ?s2))))"
        "take (length (handled ?s2)) (handled (story_loop ex d P tot rows ?s2)) = handled ?s2"
        "output_file ?s2 \<noteq> None \<longrightarrow> output_file (story_loop ex d P tot rows ?s2) \<noteq> None"
      by blast
    let ?H = "handled (story_loop ex d P tot rows ?s2)"
    from n2(3) h2 have H: "?H = handled s @ (story_id row, fst ?r) # drop (Suc (length (handled s))) ?H"
      by (metis append_take_drop_id append.assoc append_Cons append_Nil length_append_singleton)
    have tk: "take (length (handled s)) ?H = handled s"
      by (subst H) simp
    have dr: "drop (length (handled s)) ?H = (story_id row, fst ?r) # drop (Suc (length (handled s))) ?H"
      by (subst H) simp
    show ?thesis
      unfolding loop
      apply (rule exI [of _ "n1 @ n2"])
      using n1 n2 f2 h2 tk dr by (auto split: if_splits)
  qed
qed

lemma get_processed_initialize [simp]:
  "get_processed_story_ids (initialize_output_file L) = get_processed_story_ids L"
  by (simp add: get_processed_story_ids_def initialize_output_file_def split: option.splits)

lemma rows_of_initialize [simp]: "rows_of (initialize_output_file L) = rows_of L"
  by (simp add: rows_of_def initialize_output_file_def split: option.splits)

lemma get_processed_rows_of: "get_processed_story_ids L = fst ` set (rows_of L)"
  by (simp add: get_processed_story_ids_def rows_of_def split: option.splits)

lemma run_driver_handled:
  "map fst (handled (run_driver ex d df L w)) =
     map story_id (filter (\<lambda>r. story_id r \<notin> get_processed_story_ids L) df)"
  by (simp add: run_driver_def Let_def story_loop_handled)

lemma rows_of_Some [simp]: "rows_of (Some rows) = rows"
  by (simp add: rows_of_def)

lemma initialize_not_None [simp]: "initialize_output_file L \<noteq> None"
  by (simp add: initialize_output_file_def split: option.splits)

lemma run_driver_file:
  "\<exists>new. output_file (run_driver ex d df L w) = Some (rows_of L @ new) \<and>
         map fst new = map fst (filter snd (handled (run_driver ex d df L w)))"
proof -
  let ?s1 = "\<lparr>output_file = initialize_output_file L, agent = w,
               printed = initialize_output_file_prints L
                 @ get_processed_story_ids_prints (initialize_output_file L),
               processed_count = card (get_processed_story_ids (initialize_output_file L)),
               handled = []\<rparr>"
  let ?s2 = "story_loop ex d (get_processed_story_ids (initialize_output_file L)) (length df) df ?s1"
  from story_loop_file [of ex d "get_processed_story_ids (initialize_output_file L)" "length df" df ?s1]
  obtain new where
    new: "rows_of (output_file ?s2) = rows_of (output_file ?s1) @ new"
      "map fst new = map fst (filter snd (drop (length (handled ?s1)) (handled ?s2)))"
      "output_file ?s1 \<noteq> None \<longrightarrow> output_file ?s2 \<noteq> None"
    by blast
  from new(3) obtain rows where rows: "output_file ?s2 = Some rows"
    by auto
  with new(1) have "output_file ?s2 = Some (rows_of L @ new)"
    by simp
  moreover from new(2) have "map fst new = map fst (filter snd (handled ?s2))"
    by simp
  ultimately show ?thesis
    by (auto simp: run_driver_def Let_def)
qed

lemma run_driver_processed:
  "get_processed_story_ids (output_file (run_driver ex d df L w)) =
     get_processed_story_ids L \<union> {x. (x, True) \<in> set (handled (run_driver ex d df L w))}"
proof -
  from run_driver_file [of ex d df L w] obtain new where
    new: "output_file (run_driver ex d df L w) = Some (rows_of L @ new)"
      "map fst new = map fst (filter snd (handled (run_driver ex d df L w)))"
    by blast
  have "fst ` set new = set (map fst new)" by simp
  also have "\<dots> = {x. (x, True) \<in> set (handled (run_driver ex d df L w))}"
    unfolding new(2) by force
  finally have n: "fst ` set new = {x. (x, True) \<in> set (handled (run_driver ex d df L w))}" .
  have "get_processed_story_ids (output_file (run_driver ex d df L w)) = fst ` set (rows_of L @ new)"
    unfolding new(1) get_processed_rows_of by simp
  also have "\<dots> = fst ` set (rows_of L) \<union> fst ` set new"
    by (simp add: image_Un)
  finally show ?thesis
    unfolding n get_processed_rows_of .
qed

lemma process_single_story_errors:
  "[i. ErrorProcessing i e \<leftarrow> printed (snd (process_single_story ex d row s))] =
     [i. ErrorProcessing i e \<leftarrow> printed s]
       @ (if fst (process_single_story ex d row s) then [] else [story_id row])"
  by (auto simp: process_single_story_def split: prod.splits sum.splits)

lemma story_loop_errors:
  "[i. ErrorProcessing i e \<leftarrow> printed s] = map fst (filter (\<lambda>h. \<not> snd h) (handled s)) \<Longrightarrow>
   [i. ErrorProcessing i e \<leftarrow> printed (story_loop ex d P tot rows s)] =
     map fst (filter (\<lambda>h. \<not> snd h) (handled (story_loop ex d P tot rows s)))"
proof (induction rows arbitrary: s)
  case Nil
  then show ?case by simp
next
  case (Cons row rows)
  show ?case
  proof (cases "story_id row \<in> P")
    case True
    then show ?thesis using Cons by simp
  next
    case False
    let ?s1 = "s\<lparr>printed := printed s
                   @ [ProcessingStory (processed_count s + 1) tot (story_id row)]\<rparr>"
    let ?r = "process_single_story ex d row ?s1"
    let ?s2 = "if fst ?r then (snd ?r)\<lparr>processed_count := processed_count (snd ?r) + 1\<rparr> else snd ?r"
    have loop: "story_loop ex d P tot (row # rows) s = story_loop ex d P tot rows ?s2"
      using False by (simp add: Let_def)
    have "[i. ErrorProcessing i e \<leftarrow> printed ?s2] = map fst (filter (\<lambda>h. \<not> snd h) (handled ?s2))"
      using Cons.prems process_single_story_errors [of ex d row ?s1]
        process_single_story_handled [of ex d row ?s1]
      by simp
    from Cons.IH [OF this] show ?thesis
      unfolding loop .
  qed
qed

lemma run_driver_errors:
  "[i. ErrorProcessing i e \<leftarrow> printed (run_driver ex d df L w)] =
     map fst (filter (\<lambda>h. \<not> snd h) (handled (run_driver ex d df L w)))"
proof -
  let ?s1 = "\<lparr>output_file = initialize_output_file L, agent = w,
               printed = initialize_output_file_prints L
                 @ get_processed_story_ids_prints (initialize_output_file L),
               processed_count = card (get_processed_story_ids (initialize_output_file L)),
               handled = []\<rparr>"
  have "[i. ErrorProcessing i e \<leftarrow> printed ?s1] = map fst (filter (\<lambda>h. \<not> snd h) (handled ?s1))"
    by (auto simp: initialize_output_file_prints_def get_processed_story_ids_prints_def
        split: option.splits)
  from story_loop_errors [OF this, of ex d "get_processed_story_ids (initialize_output_file L)"
      "length df" df]
  show ?thesis
    by (simp add: run_driver_def Let_def)
qed

section \<open>Facts about empty keyword lists\<close>

lemma apply_json_loads_empty_lists:
  "apply_json_loads decode (replicate n (Text ''[]'')) = Inr (replicate n [])"
  by (induction n) (simp_all add: json_loads_def)

lemma explode_empty_lists: "explode (replicate n []) = replicate n None"
  by (induction n) (simp_all add: explode_def)

lemma dropna_Nones: "dropna (replicate n None @ replicate m None) = []"
  by (induction n) (simp_all, induction m, simp_all)

lemma read_csv_field_brackets: "read_csv_field ''[]'' = Text ''[]''"
  by (simp add: read_csv_field_def na_values_def)

section \<open>The claims about notebook 04\<close>

text \<open>
  C1.  No recomputation.  Take any store, keyword list and batch size, and a keyword \<open>K\<close>.
  Suppose the first \<open>j\<close> batches have been processed, none of them holds \<open>K\<close>, and \<open>K\<close> has
  a vector in the store at that moment, when the next batch (the first that can hold \<open>K\<close>)
  is processed.  Then no call of \<^verbatim>\<open>compute_embeddings\<close> made during that resolve has \<open>K\<close> in its
  argument list.  With \<open>j = 0\<close> this is the store that holds \<open>K\<close> before the resolve starts.
\<close>

theorem no_recomputation:
  assumes pre: "run_batches c f (take j (batches B ks)) (start st w) = Completed s"
    and before: "\<forall>b \<in> set (take j (batches B ks)). K \<notin> set b"
    and stored: "K \<in> dom (store s)"
  shows "K \<notin> \<Union> (set ` set (calls (state_of (resolve c f B ks st w))))"
proof (cases "B = 0")
  case True
  then show ?thesis by (simp add: resolve_def start_def)
next
  case False
  let ?bs = "batches B ks"
  have "run_batches c f ?bs (start st w) = run_batches c f (take j ?bs @ drop j ?bs) (start st w)"
    by simp
  also have "\<dots> = run_batches c f (drop j ?bs) s"
    by (simp only: run_batches_append pre outcome.case)
  finally have r: "resolve c f B ks st w = run_batches c f (drop j ?bs) s"
    using False by (simp add: resolve_def)
  from run_batches_calls [of c f "take j ?bs" "start st w"] pre
  obtain new1 where n1: "calls s = new1" "\<forall>a \<in> set new1. \<exists>b \<in> set (take j ?bs). set a \<subseteq> set b"
    by (auto simp: start_def)
  from run_batches_calls [of c f "drop j ?bs" s]
  obtain new2 where n2: "calls (state_of (run_batches c f (drop j ?bs) s)) = calls s @ new2"
    "\<forall>a \<in> set new2. set a \<inter> dom (store s) = {}"
    by blast
  have "K \<notin> set a" if "a \<in> set new1" for a
    using that n1(2) before by blast
  moreover have "K \<notin> set a" if "a \<in> set new2" for a
    using that n2(2) stored by blast
  ultimately show ?thesis
    using r n1(1) n2(1) by auto
qed

theorem no_recomputation_witness:
  "''ai'' \<in> dom [''ai'' \<mapsto> (7::int)] \<and>
   calls (state_of (resolve (\<lambda>w ks. (Inr (map length ks), Suc w)) int 2 [''rust'', ''go'', ''ai'']
            [''ai'' \<mapsto> 7] (0::nat))) = [[''rust'', ''go'']] \<and>
   ''ai'' \<notin> \<Union> (set ` set (calls (state_of
      (resolve (\<lambda>w ks. (Inr (map length ks), Suc w)) int 2 [''rust'', ''go'', ''ai'']
         [''ai'' \<mapsto> 7] (0::nat)))))"
proof -
  let ?c = "\<lambda>(w::nat) ks. (Inr (map length ks) :: error + nat list, Suc w)"
  let ?s0 = "start [''ai'' \<mapsto> (7::int)] (0::nat)"
  have bs: "batches 2 [''rust'', ''go'', ''ai''] = [[''rust'', ''go''], [''ai'']]"
    by (simp add: batches_def range_step_def upt_rec)
  obtain s where
    pre: "run_batches ?c int (take 1 (batches 2 [''rust'', ''go'', ''ai''])) ?s0 = Completed s"
    using run_batches_completes [of ?c int "take 1 (batches 2 [''rust'', ''go'', ''ai''])" ?s0]
    by auto
  have before: "\<forall>b \<in> set (take 1 (batches 2 [''rust'', ''go'', ''ai''])). ''ai'' \<notin> set b"
    unfolding bs by simp
  have stored: "''ai'' \<in> dom (store s)"
    using run_batches_dom [of ?s0 ?c int "take 1 (batches 2 [''rust'', ''go'', ''ai''])"] pre
    by (auto simp: start_def)
  have ev: "calls (state_of (resolve ?c int 2 [''rust'', ''go'', ''ai''] [''ai'' \<mapsto> 7] 0))
              = [[''rust'', ''go'']]"
    by (simp add: resolve_def bs process_batch_def Let_def start_def get_embeddings_def
        add_embeddings_def restrict_map_def)
  from no_recomputation [OF pre before stored] ev show ?thesis
    by simp
qed

text \<open>
  C2.  Chunk isolation.  Suppose the batches before batch \<open>n\<close> were processed and
  \<^verbatim>\<open>compute_embeddings\<close> raised for batch \<open>n\<close>; the service returned one vector per keyword
  whenever it returned (its contract, spec 6), and does not raise during the second run.
  Then the resolve ends with that exception in the state batch \<open>n\<close> left, its last call being
  the one for batch \<open>n\<close>: no later batch was attempted.  The store is what the batches before
  \<open>n\<close> made it: it holds every pair of the result mapping and a vector for every keyword
  of those batches.  Running the same resolve again on that store completes, and every
  keyword handed to \<^verbatim>\<open>compute_embeddings\<close> in the second run was missing from the store and
  belongs to batch \<open>n\<close> or a later batch.
\<close>

theorem chunk_isolation:
  assumes pre: "run_batches c1 f (take n (batches B ks)) (start st w) = Completed sn"
    and n: "n < length (batches B ks)"
    and fail: "process_batch c1 f (batches B ks ! n) sn = Raised e s'"
    and contract: "\<forall>w a vs w'. c1 w a = (Inr vs, w') \<longrightarrow> length vs = length a"
    and up: "\<forall>w a. \<exists>vs w'. c2 w a = (Inr vs, w')"
  shows "resolve c1 f B ks st w = Raised e s' \<and>
         calls s' = calls sn @ [filter (\<lambda>k. store sn k = None) (batches B ks ! n)] \<and>
         store s' = store sn \<and>
         final_keyword_embeddings sn \<subseteq>\<^sub>m store s' \<and>
         (\<forall>i<n. set (batches B ks ! i) \<subseteq> dom (store s')) \<and>
         (\<exists>s''. resolve c2 f B ks (store s') w2 = Completed s'' \<and>
            (\<forall>a \<in> set (calls s''). \<forall>k \<in> set a.
               k \<notin> dom (store s') \<and>
               (\<exists>i. n \<le> i \<and> i < length (batches B ks) \<and> k \<in> set (batches B ks ! i))))"
proof -
  let ?bs = "batches B ks"
  have B: "B \<noteq> 0" using n by (cases "B = 0") (simp_all add: batches_zero)
  have split: "?bs = take n ?bs @ ?bs ! n # drop (Suc n) ?bs"
    using n by (rule id_take_nth_drop)
  have "run_batches c1 f ?bs (start st w) =
          run_batches c1 f (take n ?bs @ ?bs ! n # drop (Suc n) ?bs) (start st w)"
    using split by simp
  also have "\<dots> = Raised e s'"
    by (simp only: run_batches_append pre outcome.case run_batches.simps fail)
  finally have r1: "resolve c1 f B ks st w = Raised e s'"
    using B by (simp add: resolve_def)
  from process_batch_Raised [OF fail] have
    st: "store s' = store sn"
    and cl: "calls s' = calls sn @ [filter (\<lambda>k. store sn k = None) (?bs ! n)]"
    by simp_all
  have "final_keyword_embeddings (start st w) \<subseteq>\<^sub>m store (start st w)"
    by (simp add: start_def)
  from run_batches_final_le [OF this, of c1 f "take n ?bs"] pre
  have fl: "final_keyword_embeddings sn \<subseteq>\<^sub>m store s'"
    by (simp add: st)
  have cov: "set (?bs ! i) \<subseteq> dom (store s')" if "i < n" for i
  proof -
    have "?bs ! i \<in> set (take n ?bs)"
      using that n by (metis in_set_conv_nth length_take min.absorb2 nth_take less_imp_le)
    from run_batches_covers [OF contract pre this] show ?thesis by (simp add: st)
  qed
  from run_batches_completes [OF up, of f ?bs "start (store s') w2"] obtain s'' where
    r2: "run_batches c2 f ?bs (start (store s') w2) = Completed s''" by blast
  from run_batches_calls [of c2 f ?bs "start (store s') w2"] r2
  have cs: "\<forall>a \<in> set (calls s''). (\<exists>b \<in> set ?bs. set a \<subseteq> set b) \<and> set a \<inter> dom (store s') = {}"
    by (auto simp: start_def)
  have late: "k \<notin> dom (store s') \<and> (\<exists>i. n \<le> i \<and> i < length ?bs \<and> k \<in> set (?bs ! i))"
    if a: "a \<in> set (calls s'')" and k: "k \<in> set a" for a k
  proof -
    from cs a obtain b where b: "b \<in> set ?bs" "set a \<subseteq> set b" and dis: "set a \<inter> dom (store s') = {}"
      by blast
    from b(1) obtain i where i: "i < length ?bs" "b = ?bs ! i" by (auto simp: in_set_conv_nth)
    have kd: "k \<notin> dom (store s')" using dis k by blast
    have "n \<le> i"
    proof (rule ccontr)
      assume "\<not> n \<le> i"
      then have "i < n" by simp
      from cov [OF this] b(2) i(2) k kd show False by blast
    qed
    with i b(2) k kd show ?thesis by blast
  qed
  have "resolve c2 f B ks (store s') w2 = Completed s''"
    using B r2 by (simp add: resolve_def)
  with late have "\<exists>s''. resolve c2 f B ks (store s') w2 = Completed s'' \<and>
            (\<forall>a \<in> set (calls s''). \<forall>k \<in> set a.
               k \<notin> dom (store s') \<and>
               (\<exists>i. n \<le> i \<and> i < length ?bs \<and> k \<in> set (?bs ! i)))"
    by blast
  with r1 cl st fl cov show ?thesis by blast
qed

theorem chunk_isolation_witness:
  "resolve (\<lambda>w ks. if ''b'' \<in> set ks then (Inl (ServiceError ''down''), Suc w)
                     else (Inr (map length ks), Suc w))
      int 2 [''ai'', ''go'', ''b'', ''rust'', ''zig''] Map.empty (0::nat)
     = Raised (ServiceError ''down'')
         \<lparr>store = [''ai'' \<mapsto> 2, ''go'' \<mapsto> 2],
            final_keyword_embeddings = [''ai'' \<mapsto> 2, ''go'' \<mapsto> 2],
            service = 2, calls = [[''ai'', ''go''], [''b'', ''rust'']]\<rparr> \<and>
   (\<exists>s''. resolve (\<lambda>w ks. (Inr (map length ks), Suc w)) int 2
             [''ai'', ''go'', ''b'', ''rust'', ''zig''] [''ai'' \<mapsto> 2, ''go'' \<mapsto> 2] (7::nat)
            = Completed s'' \<and>
          (\<forall>a \<in> set (calls s''). \<forall>k \<in> set a.
             k \<notin> dom [''ai'' \<mapsto> (2::int), ''go'' \<mapsto> 2] \<and>
             (\<exists>i. 1 \<le> i \<and> i < length (batches 2 [''ai'', ''go'', ''b'', ''rust'', ''zig'']) \<and>
                  k \<in> set (batches 2 [''ai'', ''go'', ''b'', ''rust'', ''zig''] ! i))))"
proof -
  let ?c1 = "\<lambda>(w::nat) ks. if ''b'' \<in> set ks then (Inl (ServiceError ''down''), Suc w)
                     else (Inr (map length ks) :: error + nat list, Suc w)"
  let ?c2 = "\<lambda>(w::nat) ks. (Inr (map length ks) :: error + nat list, Suc w)"
  let ?ks = "[''ai'', ''go'', ''b'', ''rust'', ''zig'']"
  let ?m = "[''ai'' \<mapsto> (2::int), ''go'' \<mapsto> 2]"
  let ?sn = "\<lparr>store = ?m, final_keyword_embeddings = ?m, service = (1::nat),
               calls = [[''ai'', ''go'']]\<rparr>"
  let ?s' = "\<lparr>store = ?m, final_keyword_embeddings = ?m, service = (2::nat),
               calls = [[''ai'', ''go''], [''b'', ''rust'']]\<rparr>"
  have bs: "batches 2 ?ks = [[''ai'', ''go''], [''b'', ''rust''], [''zig'']]"
    by (simp add: batches_def range_step_def upt_rec)
  have pre: "run_batches ?c1 int (take 1 (batches 2 ?ks)) (start Map.empty 0) = Completed ?sn"
    unfolding bs
    by (simp add: process_batch_def Let_def start_def get_embeddings_def add_embeddings_def)
  have n: "1 < length (batches 2 ?ks)"
    unfolding bs by simp
  have m: "?m ++ ?m |` {''b'', ''rust''} = ?m"
    by (rule ext) (simp add: map_add_def restrict_map_def)
  have fail: "process_batch ?c1 int (batches 2 ?ks ! 1) ?sn = Raised (ServiceError ''down'') ?s'"
    unfolding bs using m
    by (simp add: process_batch_def Let_def get_embeddings_def restrict_map_def)
  have contract: "\<forall>w a vs w'. ?c1 w a = (Inr vs, w') \<longrightarrow> length vs = length a"
    by (auto split: if_splits)
  have up: "\<forall>w a. \<exists>vs w'. ?c2 w a = (Inr vs, w')"
    by simp
  from chunk_isolation [OF pre n fail contract up, of 7]
  show ?thesis
    by simp
qed

text \<open>
  C4.  From an empty store, resolving \<^verbatim>\<open>["ai", "rust", "ai"]\<close> with a batch size of 2 calls
  \<^verbatim>\<open>compute_embeddings\<close> once, with \<^verbatim>\<open>["ai", "rust"]\<close>.  With \<open>[v1, v2]\<close> the vectors it returns
  (taken as the float32 arrays the loop makes of them), the mapping returned is
  \<^verbatim>\<open>{"ai": v1, "rust": v2}\<close>, and the store holds these two records and no other.
\<close>

theorem concrete_scenario:
  assumes "c w [''ai'', ''rust''] = (Inr [v1, v2], w')"
  shows "\<exists>s. resolve c f 2 [''ai'', ''rust'', ''ai''] Map.empty w = Completed s \<and>
           calls s = [[''ai'', ''rust'']] \<and>
           final_keyword_embeddings s = [''ai'' \<mapsto> f v1, ''rust'' \<mapsto> f v2] \<and>
           store s = [''ai'' \<mapsto> f v1, ''rust'' \<mapsto> f v2] \<and>
           card (dom (store s)) = 2"
proof -
  let ?m = "[''ai'' \<mapsto> f v1, ''rust'' \<mapsto> f v2]"
  let ?s1 = "\<lparr>store = ?m, final_keyword_embeddings = ?m, service = w',
               calls = [[''ai'', ''rust'']]\<rparr>"
  have b1: "process_batch c f [''ai'', ''rust''] (start Map.empty w) = Completed ?s1"
    using assms
    by (simp add: process_batch_def Let_def start_def get_embeddings_def add_embeddings_def)
  have m: "?m ++ ?m |` {''ai''} = ?m"
    by (rule ext) (simp add: map_add_def restrict_map_def)
  have b2: "process_batch c f [''ai''] ?s1 = Completed ?s1"
    using m by (simp add: process_batch_def Let_def get_embeddings_def)
  have "resolve c f 2 [''ai'', ''rust'', ''ai''] Map.empty w = Completed ?s1"
    by (simp add: resolve_def batches_example b1 b2)
  moreover have "card (dom ?m) = 2" by simp
  ultimately show ?thesis by simp
qed

theorem concrete_scenario_witness:
  "(\<lambda>w ks. (Inr (map length ks), Suc w)) (0::nat) [''ai'', ''rust''] = (Inr [2, 4], 1) \<and>
   (\<exists>s. resolve (\<lambda>w ks. (Inr (map length ks), Suc w)) int 2 [''ai'', ''rust'', ''ai'']
          Map.empty (0::nat) = Completed s \<and>
        calls s = [[''ai'', ''rust'']] \<and>
        final_keyword_embeddings s = [''ai'' \<mapsto> 2, ''rust'' \<mapsto> 4] \<and>
        store s = [''ai'' \<mapsto> 2, ''rust'' \<mapsto> 4] \<and>
        card (dom (store s)) = 2)"
proof -
  have h: "(\<lambda>w ks. (Inr (map length ks), Suc w)) (0::nat) [''ai'', ''rust''] = (Inr [2, 4], 1)"
    by simp
  from concrete_scenario [where c = "\<lambda>w ks. (Inr (map length ks), Suc w)" and w = "0::nat"
      and ?v1.0 = 2 and ?v2.0 = 4 and w' = 1 and f = int, OF h] h
  show ?thesis
    by simp
qed

text \<open>
  C5, as the code has it.  For every batch and every state of the store: the batch makes
  at most one call of \<^verbatim>\<open>compute_embeddings\<close>, and only when some keyword of the batch has no
  vector in the store; the argument is the list of exactly those keywords, in the order
  of the batch, each as often as it occurs in the batch.  The loop removes no duplicate:
  the argument has none when the batch has none.
\<close>

theorem compute_argument:
  "calls (state_of (process_batch c f b s)) =
     calls s @ (if filter (\<lambda>k. store s k = None) b = [] then []
                else [filter (\<lambda>k. store s k = None) b]) \<and>
   (\<forall>k. count_list (filter (\<lambda>k. store s k = None) b) k =
          (if store s k = None then count_list b k else 0)) \<and>
   (distinct b \<longrightarrow> distinct (filter (\<lambda>k. store s k = None) b))"
  by (simp add: process_batch_calls count_list_filter_if)

theorem compute_argument_witness:
  "distinct [''ai'', ''rust'', ''go''] \<and>
   calls (state_of (process_batch (\<lambda>w ks. (Inr (map length ks), Suc w)) int
            [''ai'', ''rust'', ''go''] (start [''rust'' \<mapsto> 5] (0::nat)))) = [[''ai'', ''go'']] \<and>
   distinct (filter (\<lambda>k. store (start [''rust'' \<mapsto> (5::int)] (0::nat)) k = None)
               [''ai'', ''rust'', ''go''])"
proof -
  let ?c = "\<lambda>(w::nat) ks. (Inr (map length ks) :: error + nat list, Suc w)"
  have d: "distinct [''ai'', ''rust'', ''go'']" by simp
  from compute_argument [of ?c int "[''ai'', ''rust'', ''go'']" "start [''rust'' \<mapsto> 5] (0::nat)"] d
  show ?thesis
    by (simp add: start_def)
qed

text \<open>
  C5 as stated fails for a batch that holds a keyword twice: from an empty store, the
  batch \<^verbatim>\<open>["ai", "rust", "ai"]\<close> is handed to \<^verbatim>\<open>compute_embeddings\<close> as it is, with \<^verbatim>\<open>"ai"\<close> twice;
  so is the whole list when the loop runs on it with the notebook's batch size.
\<close>

theorem compute_argument_counterexample:
  "calls (state_of (process_batch (\<lambda>w ks. (Inr (map length ks), Suc w)) int
            [''ai'', ''rust'', ''ai''] (start Map.empty (0::nat)))) = [[''ai'', ''rust'', ''ai'']] \<and>
   calls (state_of (resolve (\<lambda>w ks. (Inr (map length ks), Suc w)) int BATCH_SIZE
            [''ai'', ''rust'', ''ai''] Map.empty (0::nat))) = [[''ai'', ''rust'', ''ai'']] \<and>
   \<not> distinct [''ai'', ''rust'', ''ai'']"
  by (simp add: resolve_def BATCH_SIZE_def batches_def range_step_def process_batch_def Let_def
      start_def get_embeddings_def add_embeddings_def)

text \<open>
  C7.  When \<^verbatim>\<open>compute_embeddings\<close> returns for a batch, then for every keyword it was asked
  for and got a vector for (position \<open>i\<close>), the batch completes, and afterwards the store
  and the result mapping hold the same vector for that keyword: the float32 array made of
  the raw vector returned at position \<open>j\<close>, the last position of that keyword, which is
  \<open>i\<close> when the batch has no duplicate.  The raw vector is in neither.
\<close>

theorem coerced_before_use:
  assumes ret: "c (service s) (filter (\<lambda>k. store s k = None) b) = (Inr vs, w')"
    and i: "i < length (filter (\<lambda>k. store s k = None) b)" "i < length vs"
  shows "\<exists>s' j. process_batch c f b s = Completed s' \<and>
           i \<le> j \<and> j < length (filter (\<lambda>k. store s k = None) b) \<and> j < length vs \<and>
           filter (\<lambda>k. store s k = None) b ! j = filter (\<lambda>k. store s k = None) b ! i \<and>
           store s' (filter (\<lambda>k. store s k = None) b ! i) = Some (f (vs ! j)) \<and>
           final_keyword_embeddings s' (filter (\<lambda>k. store s k = None) b ! i) = Some (f (vs ! j)) \<and>
           (distinct b \<longrightarrow> j = i)"
proof -
  let ?new = "filter (\<lambda>k. store s k = None) b"
  let ?ps = "zip ?new (map f vs)"
  let ?fin = "final_keyword_embeddings s ++ get_embeddings (store s) b"
  let ?s' = "s\<lparr>store := add_embeddings (store s) ?ps,
                final_keyword_embeddings := fold (\<lambda>(k, v) m. m(k \<mapsto> v)) ?ps ?fin,
                service := w', calls := calls s @ [?new]\<rparr>"
  have ne: "?new \<noteq> []" using i by auto
  have ip: "i < length ?ps" using i by simp
  then have pne: "?ps \<noteq> []" by auto
  have pb: "process_batch c f b s = Completed ?s'"
    using ret ne pne by (simp add: process_batch_def Let_def filter_existing)
  from map_of_rev_last [OF ip] obtain j where
    j: "i \<le> j" "j < length ?ps" "fst (?ps ! j) = fst (?ps ! i)"
      "map_of (rev ?ps) (fst (?ps ! i)) = Some (snd (?ps ! j))"
    by blast
  have jn: "j < length ?new" "j < length vs" using j(2) by simp_all
  have k: "?new ! j = ?new ! i" using j(3) jn i by simp
  have m: "map_of (rev ?ps) (?new ! i) = Some (f (vs ! j))"
    using j(4) jn i by simp
  have st: "store ?s' (?new ! i) = Some (f (vs ! j))"
    using m by (simp add: add_embeddings_eq map_add_def)
  have fi: "final_keyword_embeddings ?s' (?new ! i) = Some (f (vs ! j))"
    using m by (simp add: fold_upd_map_of map_add_def)
  have "distinct b \<longrightarrow> j = i"
    using k jn i by (auto simp: nth_eq_iff_index_eq)
  with pb j(1) jn k st fi show ?thesis by blast
qed

theorem coerced_before_use_witness:
  "(\<lambda>w ks. (Inr (map length ks), Suc w)) (0::nat) [''ai'', ''rust''] = (Inr [2, 4], 1) \<and>
   (\<exists>s'. process_batch (\<lambda>w ks. (Inr (map length ks), Suc w)) int [''ai'', ''rust'']
            (start Map.empty (0::nat)) = Completed s' \<and>
          store s' ''rust'' = Some (int 4) \<and>
          final_keyword_embeddings s' ''rust'' = Some (int 4))"
proof -
  let ?c = "\<lambda>(w::nat) ks. (Inr (map length ks) :: error + nat list, Suc w)"
  let ?s = "start (Map.empty :: keyword \<rightharpoonup> int) (0::nat)"
  have new: "filter (\<lambda>k. store ?s k = None) [''ai'', ''rust''] = [''ai'', ''rust'']"
    by (simp add: start_def)
  have "\<exists>s' j. process_batch ?c int [''ai'', ''rust''] ?s = Completed s' \<and>
           1 \<le> j \<and> j < length (filter (\<lambda>k. store ?s k = None) [''ai'', ''rust'']) \<and>
           j < length [2::nat, 4] \<and>
           filter (\<lambda>k. store ?s k = None) [''ai'', ''rust''] ! j
             = filter (\<lambda>k. store ?s k = None) [''ai'', ''rust''] ! 1 \<and>
           store s' (filter (\<lambda>k. store ?s k = None) [''ai'', ''rust''] ! 1)
             = Some (int ([2, 4] ! j)) \<and>
           final_keyword_embeddings s' (filter (\<lambda>k. store ?s k = None) [''ai'', ''rust''] ! 1)
             = Some (int ([2, 4] ! j)) \<and>
           (distinct [''ai'', ''rust''] \<longrightarrow> j = 1)"
    by (rule coerced_before_use [where c = ?c and s = ?s and w' = 1])
      (simp_all add: start_def)
  then obtain s' j where
    "process_batch ?c int [''ai'', ''rust''] ?s = Completed s'"
    "distinct [''ai'', ''rust''] \<longrightarrow> j = 1"
    "store s' (filter (\<lambda>k. store ?s k = None) [''ai'', ''rust''] ! 1) = Some (int ([2, 4] ! j))"
    "final_keyword_embeddings s' (filter (\<lambda>k. store ?s k = None) [''ai'', ''rust''] ! 1)
       = Some (int ([2, 4] ! j))"
    by blast
  then show ?thesis
    by (auto simp: start_def)
qed

text \<open>
  C10.  When the first cell returns, the vocabulary handed to the batch loop has no
  duplicate, its keywords are exactly the non-null entries of the decoded LLM and DEV
  lists, and no batch cut from it holds a keyword twice, whatever the batch size.
\<close>

theorem vocabulary_unique:
  assumes "all_keywords decode df = Inr kws"
  shows "distinct kws \<and>
         (\<forall>b \<in> set (batches B kws). distinct b) \<and>
         (\<exists>llm dev. apply_json_loads decode (map llm_keywords df) = Inr llm \<and>
                    apply_json_loads decode (map dev_keywords df) = Inr dev \<and>
                    set kws = {k. \<exists>l \<in> set llm \<union> set dev. Some k \<in> set l}) \<and>
         embed_story_keywords decode c f df st w = resolve c f BATCH_SIZE kws st w"
proof -
  from assms obtain llm dev where
    l: "apply_json_loads decode (map llm_keywords df) = Inr llm"
    and d: "apply_json_loads decode (map dev_keywords df) = Inr dev"
    and k: "kws = unique (dropna (explode llm @ explode dev))"
    by (auto simp: all_keywords_def split: sum.splits)
  have dk: "distinct kws" by (simp add: k distinct_unique)
  have "set kws = {k. \<exists>l \<in> set llm \<union> set dev. Some k \<in> set l}"
    by (auto simp: k set_unique set_dropna Some_in_explode)
  with l d dk assms show ?thesis
    by (auto simp: distinct_batch embed_story_keywords_def)
qed

theorem vocabulary_unique_witness:
  "all_keywords (\<lambda>s. Inr [Some ''ai'', None, Some ''rust'', Some ''ai''])
      [\<lparr>llm_keywords = Text ''[]'', dev_keywords = Text ''x''\<rparr>] = Inr [''ai'', ''rust''] \<and>
   distinct [''ai'', ''rust''] \<and>
   embed_story_keywords (\<lambda>s. Inr [Some ''ai'', None, Some ''rust'', Some ''ai''])
      (\<lambda>w ks. (Inr (map length ks), Suc w)) int
      [\<lparr>llm_keywords = Text ''[]'', dev_keywords = Text ''x''\<rparr>] Map.empty (0::nat)
     = resolve (\<lambda>w ks. (Inr (map length ks), Suc w)) int BATCH_SIZE [''ai'', ''rust'']
         Map.empty (0::nat)"
proof -
  have h1: "all_keywords (\<lambda>s. Inr [Some ''ai'', None, Some ''rust'', Some ''ai''])
      [\<lparr>llm_keywords = Text ''[]'', dev_keywords = Text ''x''\<rparr>] = Inr [''ai'', ''rust'']"
    by (simp add: all_keywords_def json_loads_def explode_def unique_def)
  from vocabulary_unique [OF h1, of 20 "\<lambda>w ks. (Inr (map length ks), Suc w)" int Map.empty "0::nat"] h1
  show ?thesis
    by simp
qed

section \<open>The claims about notebook 03\<close>

text \<open>
  C3, as the code has it.  A story whose id is in the ledger when a run starts is never
  passed to \<^verbatim>\<open>extract_keywords\<close> in that run; and a run started from the ledger another run
  left, whatever its candidates and its extractor, passes to it neither a story that was
  in the ledger before that other run nor one that run completed.  Within one run the
  completed set is the one read at the start: when the candidates hold no story id twice,
  no story is passed to the extractor twice.  (A story id that occurs twice among the
  candidates is handled at each occurrence: see the counterexample.)
\<close>

theorem done_never_reprocessed:
  "fst ` set (handled (run_driver ex1 d1 df1 L w1)) \<inter> get_processed_story_ids L = {} \<and>
   fst ` set (handled (run_driver ex2 d2 df2 (output_file (run_driver ex1 d1 df1 L w1)) w2))
     \<inter> (get_processed_story_ids L \<union> {x. (x, True) \<in> set (handled (run_driver ex1 d1 df1 L w1))})
     = {} \<and>
   (distinct (map story_id df1) \<longrightarrow> distinct (map fst (handled (run_driver ex1 d1 df1 L w1))))"
proof -
  have h: "fst ` set (handled (run_driver ex d df L' w)) \<inter> get_processed_story_ids L' = {}"
    for ex :: "'x extractor" and d df L' w
  proof -
    have "fst ` set (handled (run_driver ex d df L' w)) = set (map fst (handled (run_driver ex d df L' w)))"
      by simp
    then show ?thesis unfolding run_driver_handled by auto
  qed
  have d: "distinct (map story_id df1) \<longrightarrow> distinct (map fst (handled (run_driver ex1 d1 df1 L w1)))"
    unfolding run_driver_handled by (simp add: distinct_map_filter)
  from h [of ex1 d1 df1 L w1] h [of ex2 d2 df2 "output_file (run_driver ex1 d1 df1 L w1)" w2] d
  show ?thesis
    by (simp add: run_driver_processed)
qed

theorem done_never_reprocessed_witness:
  "fst ` set (handled (run_driver (\<lambda>w t x. (Inr (Some [], None), w)) concat
       [\<lparr>story_id = 1, title = ''t'', story_text = ''x''\<rparr>,
        \<lparr>story_id = 2, title = ''u'', story_text = ''y''\<rparr>] (Some [(1, ''[]'', ''[]'')]) ()))
     \<inter> get_processed_story_ids (Some [(1, ''[]'', ''[]'')]) = {} \<and>
   distinct (map story_id [\<lparr>story_id = 1, title = ''t'', story_text = ''x''\<rparr>,
        \<lparr>story_id = 2, title = ''u'', story_text = ''y''\<rparr>]) \<and>
   distinct (map fst (handled (run_driver (\<lambda>w t x. (Inr (Some [], None), w)) concat
       [\<lparr>story_id = 1, title = ''t'', story_text = ''x''\<rparr>,
        \<lparr>story_id = 2, title = ''u'', story_text = ''y''\<rparr>] (Some [(1, ''[]'', ''[]'')]) ()))) \<and>
   handled (run_driver (\<lambda>w t x. (Inr (Some [], None), w)) concat
       [\<lparr>story_id = 1, title = ''t'', story_text = ''x''\<rparr>,
        \<lparr>story_id = 2, title = ''u'', story_text = ''y''\<rparr>] (Some [(1, ''[]'', ''[]'')]) ())
     = [(2, True)]"
proof -
  let ?ex = "\<lambda>(w::unit) (t::string) (x::string). (Inr (Some [], None) :: error + keyword list option \<times> keyword list option, w)"
  let ?df = "[\<lparr>story_id = 1, title = ''t'', story_text = ''x''\<rparr>,
              \<lparr>story_id = 2, title = ''u'', story_text = ''y''\<rparr>]"
  have ev: "handled (run_driver ?ex concat ?df (Some [(1, ''[]'', ''[]'')]) ()) = [(2, True)]"
    by (simp add: run_driver_def Let_def initialize_output_file_def get_processed_story_ids_def
        process_single_story_def)
  have d: "distinct (map story_id ?df)" by simp
  from done_never_reprocessed [of ?ex concat ?df "Some [(1, ''[]'', ''[]'')]" "()" ?ex concat ?df "()"]
    d ev
  show ?thesis by simp
qed

text \<open>
  C3 as stated fails for a candidate sequence that holds a story id twice: from a new
  ledger, with an extractor that returns, story 1 is handled, recorded in the ledger
  (the run over the first candidate alone leaves its row there), and handled again.
\<close>

theorem done_never_reprocessed_counterexample:
  "handled (run_driver (\<lambda>w t x. (Inr (Some [], None), w)) concat
      [\<lparr>story_id = 1, title = ''t'', story_text = ''x''\<rparr>,
       \<lparr>story_id = 1, title = ''t'', story_text = ''x''\<rparr>] None ())
     = [(1, True), (1, True)] \<and>
   output_file (run_driver (\<lambda>w t x. (Inr (Some [], None), w)) concat
      [\<lparr>story_id = 1, title = ''t'', story_text = ''x''\<rparr>] None ())
     = Some [(1, ''[]'', ''[]'')] \<and>
   output_file (run_driver (\<lambda>w t x. (Inr (Some [], None), w)) concat
      [\<lparr>story_id = 1, title = ''t'', story_text = ''x''\<rparr>,
       \<lparr>story_id = 1, title = ''t'', story_text = ''x''\<rparr>] None ())
     = Some [(1, ''[]'', ''[]''), (1, ''[]'', ''[]'')]"
  by (simp add: run_driver_def Let_def initialize_output_file_def get_processed_story_ids_def
      process_single_story_def save_story_keywords_def keywords_str_def rows_of_def)

text \<open>
  C6.  For every candidate sequence, ledger and extractor: every candidate that is not in
  the completed set is passed to \<^verbatim>\<open>extract_keywords\<close>, in order, whichever calls raised
  before it; the failure lines printed are exactly the calls that raised, in order; and
  the run reaches its last line.  At the item that raises, the exception is caught in
  \<^verbatim>\<open>process_single_story\<close>: the loop goes on with the next candidate, from a state that
  differs only by the printed lines, the state of the service and the record of the call.
\<close>

theorem item_failure_never_aborts:
  "map fst (handled (run_driver ex d df L w)) =
     map story_id (filter (\<lambda>r. story_id r \<notin> get_processed_story_ids L) df) \<and>
   [i. ErrorProcessing i e \<leftarrow> printed (run_driver ex d df L w)] =
     map fst (filter (\<lambda>h. \<not> snd h) (handled (run_driver ex d df L w))) \<and>
   last (printed (run_driver ex d df L w))
     = ProcessingComplete (processed_count (run_driver ex d df L w)) \<and>
   (story_id row \<notin> P \<and> ex (agent s) (title row) (story_text row) = (Inl err, w') \<longrightarrow>
      story_loop ex d P tot (row # rows) s =
        story_loop ex d P tot rows
          (s\<lparr>agent := w',
             printed := printed s @ [ProcessingStory (processed_count s + 1) tot (story_id row),
                                     ErrorProcessing (story_id row) err],
             handled := handled s @ [(story_id row, False)]\<rparr>))"
proof -
  have "last (printed (run_driver ex d df L w))
          = ProcessingComplete (processed_count (run_driver ex d df L w))"
    by (simp add: run_driver_def Let_def)
  moreover have "story_loop ex d P tot (row # rows) s =
        story_loop ex d P tot rows
          (s\<lparr>agent := w',
             printed := printed s @ [ProcessingStory (processed_count s + 1) tot (story_id row),
                                     ErrorProcessing (story_id row) err],
             handled := handled s @ [(story_id row, False)]\<rparr>)"
    if "story_id row \<notin> P" "ex (agent s) (title row) (story_text row) = (Inl err, w')"
    using that by (simp add: Let_def process_single_story_def)
  ultimately show ?thesis
    using run_driver_handled [of ex d df L w] run_driver_errors [of ex d df L w] by blast
qed

theorem item_failure_never_aborts_witness:
  "map fst (handled (run_driver
      (\<lambda>w t x. if t = ''bad'' then (Inl (ServiceError ''llm''), Suc w) else (Inr (Some [''ai''], Some []), Suc w))
      concat
      [\<lparr>story_id = 1, title = ''ok'', story_text = ''x''\<rparr>,
       \<lparr>story_id = 2, title = ''bad'', story_text = ''y''\<rparr>,
       \<lparr>story_id = 3, title = ''ok'', story_text = ''z''\<rparr>]
      (Some [(1, ''[]'', ''[]'')]) (0::nat))) = [2, 3] \<and>
   [i. ErrorProcessing i e \<leftarrow> printed (run_driver
      (\<lambda>w t x. if t = ''bad'' then (Inl (ServiceError ''llm''), Suc w) else (Inr (Some [''ai''], Some []), Suc w))
      concat
      [\<lparr>story_id = 1, title = ''ok'', story_text = ''x''\<rparr>,
       \<lparr>story_id = 2, title = ''bad'', story_text = ''y''\<rparr>,
       \<lparr>story_id = 3, title = ''ok'', story_text = ''z''\<rparr>]
      (Some [(1, ''[]'', ''[]'')]) (0::nat))] = [2] \<and>
   handled (story_loop
      (\<lambda>w t x. if t = ''bad'' then (Inl (ServiceError ''llm''), Suc w) else (Inr (Some [''ai''], Some []), Suc w))
      concat {1} 3
      [\<lparr>story_id = 2, title = ''bad'', story_text = ''y''\<rparr>,
       \<lparr>story_id = 3, title = ''ok'', story_text = ''z''\<rparr>]
      \<lparr>output_file = Some [(1, ''[]'', ''[]'')], agent = (0::nat), printed = [],
         processed_count = 1, handled = []\<rparr>) = [(2, False), (3, True)]"
proof -
  let ?ex = "\<lambda>(w::nat) (t::string) (x::string).
      if t = ''bad'' then (Inl (ServiceError ''llm''), Suc w)
      else (Inr (Some [''ai''], Some []) :: error + keyword list option \<times> keyword list option, Suc w)"
  let ?S2 = "\<lparr>story_id = 2, title = ''bad'', story_text = ''y''\<rparr>"
  let ?S3 = "\<lparr>story_id = 3, title = ''ok'', story_text = ''z''\<rparr>"
  let ?df = "[\<lparr>story_id = 1, title = ''ok'', story_text = ''x''\<rparr>, ?S2, ?S3]"
  let ?L = "Some [(1::int, ''[]'', ''[]'')]"
  let ?s = "\<lparr>output_file = ?L, agent = (0::nat), printed = [],
              processed_count = 1, handled = []\<rparr>"
  have ev: "handled (run_driver ?ex concat ?df ?L 0) = [(2, False), (3, True)]"
    by (simp add: run_driver_def Let_def initialize_output_file_def get_processed_story_ids_def
        process_single_story_def)
  have h1: "story_id ?S2 \<notin> {1::int}" by simp
  have h2: "?ex (agent ?s) (title ?S2) (story_text ?S2) = (Inl (ServiceError ''llm''), 1)"
    by simp
  from item_failure_never_aborts [of ?ex concat ?df ?L 0 ?S2 "{1}" ?s "ServiceError ''llm''" 1 3 "[?S3]"]
    h1 h2 ev
  show ?thesis
    by (simp add: get_processed_story_ids_def Let_def process_single_story_def)
qed

text \<open>
  C9.  The rows a run appends to the ledger are, in order, one per call of
  \<^verbatim>\<open>extract_keywords\<close> that returned, with the story id of that call; so the completed set
  read at the next start is the old one and the stories whose extraction succeeded.  A
  call that raises leaves the ledger as it was; a call that returns appends the row of
  its story.  A story whose calls all raised is not in the completed set after the run,
  and every later run that has it among its candidates passes it to the extractor again.
\<close>

theorem ledger_row_iff_success:
  "(\<exists>new. output_file (run_driver ex d df L w) = Some (rows_of L @ new) \<and>
          map fst new = map fst (filter snd (handled (run_driver ex d df L w)))) \<and>
   get_processed_story_ids (output_file (run_driver ex d df L w)) =
     get_processed_story_ids L \<union> {x. (x, True) \<in> set (handled (run_driver ex d df L w))} \<and>
   (ex (agent s) (title row) (story_text row) = (Inl err, w') \<longrightarrow>
      output_file (snd (process_single_story ex d row s)) = output_file s) \<and>
   (ex (agent s) (title row) (story_text row) = (Inr kws, w') \<longrightarrow>
      output_file (snd (process_single_story ex d row s)) =
        Some (rows_of (output_file s)
                @ [(story_id row, keywords_str d (fst kws), keywords_str d (snd kws))])) \<and>
   ((x, False) \<in> set (handled (run_driver ex d df L w)) \<and>
    (x, True) \<notin> set (handled (run_driver ex d df L w)) \<longrightarrow>
      x \<notin> get_processed_story_ids (output_file (run_driver ex d df L w)) \<and>
      (\<forall>r \<in> set df2. story_id r = x \<longrightarrow>
         x \<in> fst ` set (handled (run_driver ex2 d2 df2 (output_file (run_driver ex d df L w)) w2))))"
proof -
  let ?s1 = "run_driver ex d df L w"
  have late: "x \<notin> get_processed_story_ids (output_file ?s1) \<and>
      (\<forall>r \<in> set df2. story_id r = x \<longrightarrow>
         x \<in> fst ` set (handled (run_driver ex2 d2 df2 (output_file ?s1) w2)))"
    if f: "(x, False) \<in> set (handled ?s1)" and t: "(x, True) \<notin> set (handled ?s1)"
  proof -
    from f have "x \<in> set (map fst (handled ?s1))" by force
    then have "x \<notin> get_processed_story_ids L"
      unfolding run_driver_handled by auto
    with t have nd: "x \<notin> get_processed_story_ids (output_file ?s1)"
      by (simp add: run_driver_processed)
    have "x \<in> fst ` set (handled (run_driver ex2 d2 df2 (output_file ?s1) w2))"
      if "r \<in> set df2" "story_id r = x" for r
    proof -
      have "x \<in> set (map fst (handled (run_driver ex2 d2 df2 (output_file ?s1) w2)))"
        unfolding run_driver_handled using that nd by auto
      then show ?thesis by simp
    qed
    with nd show ?thesis by blast
  qed
  have a: "ex (agent s) (title row) (story_text row) = (Inl err, w') \<longrightarrow>
      output_file (snd (process_single_story ex d row s)) = output_file s"
    by (simp add: process_single_story_def)
  have b: "ex (agent s) (title row) (story_text row) = (Inr kws, w') \<longrightarrow>
      output_file (snd (process_single_story ex d row s)) =
        Some (rows_of (output_file s)
                @ [(story_id row, keywords_str d (fst kws), keywords_str d (snd kws))])"
    by (simp add: process_single_story_def save_story_keywords_def Let_def)
  from run_driver_file [of ex d df L w] run_driver_processed [of ex d df L w] a b late
  show ?thesis by blast
qed

theorem ledger_row_iff_success_witness:
  "output_file (run_driver
      (\<lambda>w t x. if t = ''bad'' then (Inl (ServiceError ''llm''), Suc w) else (Inr (Some [''ai''], Some []), Suc w))
      concat
      [\<lparr>story_id = 2, title = ''bad'', story_text = ''y''\<rparr>,
       \<lparr>story_id = 3, title = ''ok'', story_text = ''z''\<rparr>]
      (Some [(1, ''[]'', ''[]'')]) (0::nat))
     = Some [(1, ''[]'', ''[]''), (3, ''ai'', ''[]'')] \<and>
   2 \<notin> get_processed_story_ids (output_file (run_driver
      (\<lambda>w t x. if t = ''bad'' then (Inl (ServiceError ''llm''), Suc w) else (Inr (Some [''ai''], Some []), Suc w))
      concat
      [\<lparr>story_id = 2, title = ''bad'', story_text = ''y''\<rparr>,
       \<lparr>story_id = 3, title = ''ok'', story_text = ''z''\<rparr>]
      (Some [(1, ''[]'', ''[]'')]) (0::nat))) \<and>
   2 \<in> fst ` set (handled (run_driver (\<lambda>w t x. (Inr (Some [], None), w)) concat
      [\<lparr>story_id = 2, title = ''bad'', story_text = ''y''\<rparr>]
      (output_file (run_driver
        (\<lambda>w t x. if t = ''bad'' then (Inl (ServiceError ''llm''), Suc w) else (Inr (Some [''ai''], Some []), Suc w))
        concat
        [\<lparr>story_id = 2, title = ''bad'', story_text = ''y''\<rparr>,
         \<lparr>story_id = 3, title = ''ok'', story_text = ''z''\<rparr>]
        (Some [(1, ''[]'', ''[]'')]) (0::nat))) (5::nat)))"
proof -
  let ?ex = "\<lambda>(w::nat) (t::string) (x::string).
      if t = ''bad'' then (Inl (ServiceError ''llm''), Suc w)
      else (Inr (Some [''ai''], Some []) :: error + keyword list option \<times> keyword list option, Suc w)"
  let ?ex2 = "\<lambda>(w::nat) (t::string) (x::string).
      (Inr (Some [], None) :: error + keyword list option \<times> keyword list option, w)"
  let ?S2 = "\<lparr>story_id = 2, title = ''bad'', story_text = ''y''\<rparr>"
  let ?S3 = "\<lparr>story_id = 3, title = ''ok'', story_text = ''z''\<rparr>"
  let ?L = "Some [(1::int, ''[]'', ''[]'')]"
  let ?s = "\<lparr>output_file = ?L, agent = (0::nat), printed = [],
              processed_count = 1, handled = []\<rparr>"
  have ev: "handled (run_driver ?ex concat [?S2, ?S3] ?L 0) = [(2, False), (3, True)]"
    by (simp add: run_driver_def Let_def initialize_output_file_def get_processed_story_ids_def
        process_single_story_def)
  have ledger_after: "output_file (run_driver ?ex concat [?S2, ?S3] ?L 0)
                = Some [(1, ''[]'', ''[]''), (3, ''ai'', ''[]'')]"
    by (simp add: run_driver_def Let_def initialize_output_file_def get_processed_story_ids_def
        process_single_story_def save_story_keywords_def keywords_str_def)
  have h: "(2, False) \<in> set (handled (run_driver ?ex concat [?S2, ?S3] ?L 0)) \<and>
           (2, True) \<notin> set (handled (run_driver ?ex concat [?S2, ?S3] ?L 0))"
    unfolding ev by simp
  have r: "?S2 \<in> set [?S2]" by simp
  from ledger_row_iff_success [of ?ex concat "[?S2, ?S3]" ?L 0 ?s ?S2 "ServiceError ''llm''" 1
      "(Some [''ai''], Some [])" 2 "[?S2]" ?ex2 concat 5] h r
  have "2 \<notin> get_processed_story_ids (output_file (run_driver ?ex concat [?S2, ?S3] ?L 0)) \<and>
        2 \<in> fst ` set (handled (run_driver ?ex2 concat [?S2]
               (output_file (run_driver ?ex concat [?S2, ?S3] ?L 0)) 5))"
    by auto
  with ledger_after show ?thesis by simp
qed

section \<open>The claim about empty keyword fields\<close>

text \<open>
  C8, as the code has it.  \<^verbatim>\<open>save_story_keywords\<close> writes a keyword list that is empty or null
  as the text \<^verbatim>\<open>[]\<close>; such a field is read back as that text and \<^verbatim>\<open>json.loads\<close> gives the empty
  list for it, so records without keywords contribute no keyword and raise no error.  A field that
  is itself empty or missing is read as \<^verbatim>\<open>NaN\<close>, and \<^verbatim>\<open>json.loads\<close> raises \<^verbatim>\<open>TypeError\<close> for it:
  the notebook has no guard.
\<close>

theorem empty_keyword_list_parses:
  "keywords_str dumps (Some []) = ''[]'' \<and>
   keywords_str dumps None = ''[]'' \<and>
   json_loads decode (read_csv_field ''[]'') = Inr [] \<and>
   all_keywords decode
     (map (\<lambda>sid. read_meta_row (sid, keywords_str dumps (Some []), keywords_str dumps None)) sids)
     = Inr [] \<and>
   json_loads decode (read_csv_field []) = Inl TypeError \<and>
   json_loads decode NaN = Inl TypeError"
proof -
  have k: "keywords_str dumps (Some []) = ''[]''" "keywords_str dumps None = ''[]''"
    by (simp_all add: keywords_str_def)
  have cells: "map llm_keywords (map (\<lambda>sid. read_meta_row (sid, ''[]'', ''[]'')) sids)
                 = replicate (length sids) (Text ''[]'')"
      "map dev_keywords (map (\<lambda>sid. read_meta_row (sid, ''[]'', ''[]'')) sids)
                 = replicate (length sids) (Text ''[]'')"
    by (simp_all add: read_meta_row_def read_csv_field_brackets map_replicate_const)
  have all: "all_keywords decode (map (\<lambda>sid. read_meta_row (sid, ''[]'', ''[]'')) sids) = Inr []"
    unfolding all_keywords_def cells
    by (simp add: apply_json_loads_empty_lists explode_empty_lists dropna_Nones unique_def)
  have "json_loads decode (read_csv_field []) = Inl TypeError"
    by (simp add: read_csv_field_def na_values_def json_loads_def)
  moreover have "json_loads decode NaN = Inl TypeError"
    by (simp add: json_loads_def)
  moreover have "json_loads decode (read_csv_field ''[]'') = Inr []"
    by (simp add: read_csv_field_brackets json_loads_def)
  ultimately show ?thesis using k all by simp
qed

text \<open>
  C8 as stated fails: a record whose LLM keyword field is empty makes the first cell of
  notebook 04 raise, with a decoder that never raises.
\<close>

theorem empty_field_counterexample:
  "json_loads (\<lambda>s. Inr []) (read_csv_field []) = Inl TypeError \<and>
   all_keywords (\<lambda>s. Inr [])
     [\<lparr>llm_keywords = read_csv_field [], dev_keywords = read_csv_field ''[]''\<rparr>] = Inl TypeError"
  by (simp add: read_csv_field_def na_values_def json_loads_def all_keywords_def)

end
